theory Spec2Isabelle
  imports Main "HOL-Library.Word"
begin

unbundle bit_operations_syntax

section \<open>Bytes and the UTF-8 helpers\<close>

text \<open>
  A \<open>std::string\<close> / \<open>std::string_view\<close> is a sequence of bytes: \<open>string\<close>, a list of
  8-bit \<open>char\<close>. The source reads each byte as \<open>unsigned char\<close> before masking it;
  \<open>byte\<close> is that reading. Positions and sizes are \<open>size_t\<close>; they are \<open>nat\<close> here
  (an index never exceeds the size of the text by more than 3, so no wrap-around occurs
  for any text that fits in memory).
\<close>

abbreviation byte :: "char \<Rightarrow> 8 word" where
  "byte c \<equiv> of_char c"

definition utf8_char_length :: "char \<Rightarrow> nat" where
  "utf8_char_length c =
     (if byte c AND 0x80 = 0 then 1
      else if byte c AND 0xE0 = 0xC0 then 2
      else if byte c AND 0xF0 = 0xE0 then 3
      else if byte c AND 0xF8 = 0xF0 then 4
      else 1)"

text \<open>
  \<open>std::ispunct\<close> and \<open>std::tolower\<close> belong to the C library, not to the repository.
  The program never calls \<open>setlocale\<close>, so they are the functions of the "C" locale:
  the punctuation class is the printable ASCII characters that are neither alphanumeric
  nor the space (33-47, 58-64, 91-96, 123-126), and only \<open>A\<close>-\<open>Z\<close> have a lowercase.
\<close>

definition is_ascii_punct :: "char \<Rightarrow> bool" where
  "is_ascii_punct c =
     (let n = (of_char c :: nat)
      in (33 \<le> n \<and> n \<le> 47) \<or> (58 \<le> n \<and> n \<le> 64) \<or>
         (91 \<le> n \<and> n \<le> 96) \<or> (123 \<le> n \<and> n \<le> 126))"

definition to_ascii_lower :: "char \<Rightarrow> char" where
  "to_ascii_lower c =
     (let n = (of_char c :: nat)
      in if 65 \<le> n \<and> n \<le> 90 then char_of (n + 32) else c)"

text \<open>
  \<open>string_view::substr\<close>. It throws when \<open>pos\<close> exceeds the size; every call of the
  source is guarded (\<open>i < text.size()\<close>, \<open>start < i\<close>, \<open>start < text.size()\<close>), so that
  branch is never taken and the total function below agrees with it on all calls.
\<close>

definition substr :: "string \<Rightarrow> nat \<Rightarrow> nat \<Rightarrow> string" where
  "substr text pos n = take n (drop pos text)"

definition substr_from :: "string \<Rightarrow> nat \<Rightarrow> string" where
  "substr_from text pos = drop pos text"

section \<open>The tokenizer object\<close>

datatype error = LengthError | SignedOverflow

record tokenizer =
  delimiters :: "char set"
  lowercase :: bool
  keep_punctuation :: bool
  split_on_punctuation :: bool
  vocab_to_id :: "string \<rightharpoonup> int"
  id_to_vocab :: "string list"
  unk_token :: string
  pad_token :: string
  cls_token :: string
  sep_token :: string
  use_vocab :: bool
  unk_id :: int
  pad_id :: int
  cls_id :: int
  sep_id :: int

definition TextTokenizer :: tokenizer where
  "TextTokenizer =
     \<lparr> delimiters = {CHR '' '', CHR 0x09, CHR 0x0A, CHR 0x0D, CHR 0x0C, CHR 0x0B},
       lowercase = False,
       keep_punctuation = False,
       split_on_punctuation = False,
       vocab_to_id = Map.empty,
       id_to_vocab = [],
       unk_token = ''[UNK]'',
       pad_token = ''[PAD]'',
       cls_token = ''[CLS]'',
       sep_token = ''[SEP]'',
       use_vocab = False,
       unk_id = -1,
       pad_id = -1,
       cls_id = -1,
       sep_id = -1 \<rparr>"

definition set_lowercase :: "bool \<Rightarrow> tokenizer \<Rightarrow> tokenizer" where
  "set_lowercase enable t = t\<lparr>lowercase := enable\<rparr>"

definition set_keep_punctuation :: "bool \<Rightarrow> tokenizer \<Rightarrow> tokenizer" where
  "set_keep_punctuation enable t = t\<lparr>keep_punctuation := enable\<rparr>"

definition set_split_on_punctuation :: "bool \<Rightarrow> tokenizer \<Rightarrow> tokenizer" where
  "set_split_on_punctuation enable t = t\<lparr>split_on_punctuation := enable\<rparr>"

definition add_delimiter :: "char \<Rightarrow> tokenizer \<Rightarrow> tokenizer" where
  "add_delimiter delim t = t\<lparr>delimiters := insert delim (delimiters t)\<rparr>"

definition set_special_tokens :: "string \<Rightarrow> string \<Rightarrow> string \<Rightarrow> string \<Rightarrow> tokenizer \<Rightarrow> tokenizer" where
  "set_special_tokens unk pad cls sep t =
     t\<lparr>unk_token := unk, pad_token := pad, cls_token := cls, sep_token := sep\<rparr>"

section \<open>Normalization\<close>

text \<open>The inner \<open>for\<close> loop of \<open>normalize_token\<close>: copy at most \<open>len\<close> bytes from \<open>i\<close>.\<close>

function copy_char :: "string \<Rightarrow> nat \<Rightarrow> nat \<Rightarrow> nat \<Rightarrow> string \<Rightarrow> string" where
  "copy_char token i len j result =
     (if j < len \<and> i + j < length token
      then copy_char token i len (j + 1) (result @ [token ! (i + j)])
      else result)"
  by pat_completeness auto
termination
  by (relation "measure (\<lambda>(token, i, len, j, result). len - j)") auto

declare copy_char.simps [simp del]

lemma utf8_char_length_pos: "0 < utf8_char_length c"
  by (simp add: utf8_char_length_def)

function normalize_loop :: "string \<Rightarrow> nat \<Rightarrow> string \<Rightarrow> string" where
  "normalize_loop token i result =
     (if i < length token then
        (if byte (token ! i) AND 0x80 = 0
         then normalize_loop token (i + 1) (result @ [to_ascii_lower (token ! i)])
         else normalize_loop token (i + utf8_char_length (token ! i))
                (copy_char token i (utf8_char_length (token ! i)) 0 result))
      else result)"
  by pat_completeness auto
termination
  by (relation "measure (\<lambda>(token, i, result). length token - i)")
     (auto simp: utf8_char_length_pos intro: diff_less_mono2)

declare normalize_loop.simps [simp del]

definition normalize_token :: "tokenizer \<Rightarrow> string \<Rightarrow> string" where
  "normalize_token t token =
     (if \<not> lowercase t then token else normalize_loop token 0 [])"

definition should_split_at :: "tokenizer \<Rightarrow> char \<Rightarrow> bool" where
  "should_split_at t c \<longleftrightarrow>
     c \<in> delimiters t \<or> (split_on_punctuation t \<and> is_ascii_punct c)"

section \<open>tokenize\<close>

text \<open>
  The inner \<open>while\<close> of \<open>tokenize\<close>: it runs over the delimiter run with the cursor
  \<open>start\<close> still at the beginning of the slice that preceded the run, and returns the
  index after the run together with the tokens. The difference \<open>i - start\<close> of the guard
  is a \<open>size_t\<close>; the loops keep \<open>start \<le> i\<close>, so it never wraps and is the
  subtraction of \<open>nat\<close>.
\<close>

function skip_run :: "tokenizer \<Rightarrow> string \<Rightarrow> nat \<Rightarrow> nat \<Rightarrow> string list \<Rightarrow> nat \<times> string list" where
  "skip_run t text start i tokens =
     (if i < length text \<and> should_split_at t (text ! i) then
        skip_run t text start (i + 1)
          (if keep_punctuation t \<and> is_ascii_punct (text ! i) \<and>
              i > start + (if i - start > 0 then 1 else 0)
           then tokens @ [normalize_token t (substr text i 1)]
           else tokens)
      else (i, tokens))"
  by pat_completeness auto
termination
  by (relation "measure (\<lambda>(t, text, start, i, tokens). length text - i)") auto

declare skip_run.simps [simp del]

lemma skip_run_advances:
  "i < length text \<Longrightarrow> should_split_at t (text ! i) \<Longrightarrow>
     i < fst (skip_run t text start i tokens)"
proof -
  have ge: "j \<le> fst (skip_run t text start j toks)" for j toks
    by (induction t "text" start j toks rule: skip_run.induct)
       (subst skip_run.simps, auto)
  assume "i < length text" "should_split_at t (text ! i)"
  then have "fst (skip_run t text start i tokens) =
      fst (skip_run t text start (i + 1)
          (if keep_punctuation t \<and> is_ascii_punct (text ! i) \<and>
              i > start + (if i - start > 0 then 1 else 0)
           then tokens @ [normalize_token t (substr text i 1)]
           else tokens))"
    by (subst skip_run.simps) simp
  also have "\<dots> \<ge> i + 1" by (rule ge)
  finally show ?thesis by simp
qed

text \<open>The outer \<open>while\<close> of \<open>tokenize\<close>; it returns the final \<open>start\<close> and the tokens.\<close>

function tokenize_loop :: "tokenizer \<Rightarrow> string \<Rightarrow> nat \<Rightarrow> nat \<Rightarrow> string list \<Rightarrow> nat \<times> string list" where
  "tokenize_loop t text start i tokens =
     (if i < length text then
        (if byte (text ! i) AND 0x80 \<noteq> 0
         then tokenize_loop t text start (i + utf8_char_length (text ! i)) tokens
         else if should_split_at t (text ! i) then
           (let tokens1 =
                  (if i > start then
                     (if substr text start (i - start) \<noteq> []
                      then tokens @ [normalize_token t (substr text start (i - start))]
                      else tokens)
                   else tokens);
                tokens2 =
                  (if keep_punctuation t \<and> is_ascii_punct (text ! i)
                   then tokens1 @ [normalize_token t (substr text i 1)]
                   else tokens1)
            in case skip_run t text start i tokens2 of
                 (i', tokens3) \<Rightarrow> tokenize_loop t text i' i' tokens3)
         else tokenize_loop t text start (i + 1) tokens)
      else (start, tokens))"
  by pat_completeness auto
termination
proof (relation "measure (\<lambda>(t, text, start, i, tokens). length text - i)", goal_cases)
  case 1
  show ?case by simp
next
  case (2 t s start i tokens)
  then show ?case by (simp add: utf8_char_length_pos diff_less_mono2)
next
  case (3 t s start i tokens x xa xb y)
  then have "i < fst (skip_run t s start i xa)"
    by (intro skip_run_advances) auto
  moreover from 3 have "fst (skip_run t s start i xa) = xb"
    by (metis fst_conv)
  ultimately show ?case using 3(1) by (simp add: diff_less_mono2)
next
  case (4 t s start i tokens)
  then show ?case by (simp add: diff_less_mono2)
qed

declare tokenize_loop.simps [simp del]

definition tokenize :: "tokenizer \<Rightarrow> string \<Rightarrow> string list" where
  "tokenize t text =
     (case tokenize_loop t text 0 0 [] of
        (start, tokens) \<Rightarrow>
          if start < length text then
            (if substr_from text start \<noteq> []
             then tokens @ [normalize_token t (substr_from text start)]
             else tokens)
          else tokens)"

section \<open>count_tokens\<close>

function count_run :: "tokenizer \<Rightarrow> string \<Rightarrow> nat \<Rightarrow> nat \<Rightarrow> nat \<Rightarrow> nat \<times> nat" where
  "count_run t text start i count =
     (if i < length text \<and> should_split_at t (text ! i) then
        count_run t text start (i + 1)
          (if keep_punctuation t \<and> is_ascii_punct (text ! i) \<and>
              i > start + (if i - start > 0 then 1 else 0)
           then count + 1
           else count)
      else (i, count))"
  by pat_completeness auto
termination
  by (relation "measure (\<lambda>(t, text, start, i, count). length text - i)") auto

declare count_run.simps [simp del]

lemma count_run_advances:
  "i < length text \<Longrightarrow> should_split_at t (text ! i) \<Longrightarrow>
     i < fst (count_run t text start i count)"
proof -
  have ge: "j \<le> fst (count_run t text start j n)" for j n
    by (induction t "text" start j n rule: count_run.induct)
       (subst count_run.simps, auto)
  assume "i < length text" "should_split_at t (text ! i)"
  then have "fst (count_run t text start i count) =
      fst (count_run t text start (i + 1)
          (if keep_punctuation t \<and> is_ascii_punct (text ! i) \<and>
              i > start + (if i - start > 0 then 1 else 0)
           then count + 1
           else count))"
    by (subst count_run.simps) simp
  also have "\<dots> \<ge> i + 1" by (rule ge)
  finally show ?thesis by simp
qed

function count_loop :: "tokenizer \<Rightarrow> string \<Rightarrow> nat \<Rightarrow> nat \<Rightarrow> nat \<Rightarrow> nat \<times> nat" where
  "count_loop t text start i count =
     (if i < length text then
        (if byte (text ! i) AND 0x80 \<noteq> 0
         then count_loop t text start (i + utf8_char_length (text ! i)) count
         else if should_split_at t (text ! i) then
           (let count1 = (if i > start then count + 1 else count);
                count2 =
                  (if keep_punctuation t \<and> is_ascii_punct (text ! i)
                   then count1 + 1
                   else count1)
            in case count_run t text start i count2 of
                 (i', count3) \<Rightarrow> count_loop t text i' i' count3)
         else count_loop t text start (i + 1) count)
      else (start, count))"
  by pat_completeness auto
termination
proof (relation "measure (\<lambda>(t, text, start, i, count). length text - i)", goal_cases)
  case 1
  show ?case by simp
next
  case (2 t s start i count)
  then show ?case by (simp add: utf8_char_length_pos diff_less_mono2)
next
  case (3 t s start i count x xa xb y)
  then have "i < fst (count_run t s start i xa)"
    by (intro count_run_advances) auto
  moreover from 3 have "fst (count_run t s start i xa) = xb"
    by (metis fst_conv)
  ultimately show ?case using 3(1) by (simp add: diff_less_mono2)
next
  case (4 t s start i count)
  then show ?case by (simp add: diff_less_mono2)
qed

declare count_loop.simps [simp del]

definition count_tokens :: "tokenizer \<Rightarrow> string \<Rightarrow> nat" where
  "count_tokens t text =
     (case count_loop t text 0 0 0 of
        (start, count) \<Rightarrow> if start < length text then count + 1 else count)"

section \<open>Vocabulary installation\<close>

text \<open>
  \<open>token.erase(token.find_last_not_of(" \t\r\n") + 1)\<close>: the trailing blanks are
  removed; a line of blanks only becomes empty (\<open>npos + 1\<close> is 0).
\<close>

definition rtrim :: "string \<Rightarrow> string" where
  "rtrim token =
     rev (dropWhile (\<lambda>c. c \<in> {CHR '' '', CHR 0x09, CHR 0x0D, CHR 0x0A}) (rev token))"

text \<open>
  The chain \<open>if (token == unk_token_) ... else if (token == pad_token_) ...\<close> that both
  installation paths run after inserting \<open>token\<close> with \<open>id\<close>.
\<close>

definition store_special_id :: "string \<Rightarrow> int \<Rightarrow> tokenizer \<Rightarrow> tokenizer" where
  "store_special_id token id' t =
     (if token = unk_token t then t\<lparr>unk_id := id'\<rparr>
      else if token = pad_token t then t\<lparr>pad_id := id'\<rparr>
      else if token = cls_token t then t\<lparr>cls_id := id'\<rparr>
      else if token = sep_token t then t\<lparr>sep_id := id'\<rparr>
      else t)"

text \<open>The \<open>while (std::getline(file, token))\<close> loop of \<open>load_vocab\<close>, over the lines read.\<close>

fun load_lines :: "string list \<Rightarrow> int \<Rightarrow> tokenizer \<Rightarrow> tokenizer" where
  "load_lines [] id' t = t"
| "load_lines (line # rest) id' t =
     (let token = rtrim line
      in if token \<noteq> [] then
           load_lines rest (id' + 1)
             (store_special_id token id'
                (t\<lparr>vocab_to_id := (vocab_to_id t)(token \<mapsto> id'),
                   id_to_vocab := id_to_vocab t @ [token]\<rparr>))
         else load_lines rest id' t)"

text \<open>
  \<open>load_vocab\<close> reads a file. The file system is outside the program, so the content of
  the file is the argument: \<open>None\<close> when the file cannot be opened, otherwise its lines.
  The result is the returned flag and the tokenizer after the call.
\<close>

definition load_vocab :: "string list option \<Rightarrow> tokenizer \<Rightarrow> bool \<times> tokenizer" where
  "load_vocab vocab_file t =
     (case vocab_file of
        None \<Rightarrow> (False, t)
      | Some lines \<Rightarrow>
          (True, (load_lines lines 0 (t\<lparr>vocab_to_id := Map.empty, id_to_vocab := []\<rparr>))
                   \<lparr>use_vocab := True\<rparr>))"

text \<open>\<open>token_counts[token]++\<close> for every token of every text.\<close>

fun count_into :: "string list \<Rightarrow> (string \<rightharpoonup> int) \<Rightarrow> (string \<rightharpoonup> int)" where
  "count_into [] m = m"
| "count_into (token # rest) m =
     count_into rest (m(token \<mapsto> (case m token of None \<Rightarrow> 0 | Some c \<Rightarrow> c) + 1))"

fun count_texts :: "tokenizer \<Rightarrow> string list \<Rightarrow> (string \<rightharpoonup> int) \<Rightarrow> (string \<rightharpoonup> int)" where
  "count_texts t [] m = m"
| "count_texts t (text # rest) m = count_texts t rest (count_into (tokenize t text) m)"

text \<open>
  The loop over \<open>token_counts\<close> that fills \<open>sorted_tokens\<close>. A \<open>std::unordered_map\<close>
  enumerates its entries in an order the language does not fix; \<open>order\<close> is that
  enumeration of the keys, a parameter of the model.
\<close>

fun collect_frequent :: "(string \<rightharpoonup> int) \<Rightarrow> string list \<Rightarrow> int \<Rightarrow> (string \<times> int) list" where
  "collect_frequent m [] min_frequency = []"
| "collect_frequent m (k # ks) min_frequency =
     (case m k of
        None \<Rightarrow> collect_frequent m ks min_frequency
      | Some c \<Rightarrow>
          if c \<ge> min_frequency then (k, c) # collect_frequent m ks min_frequency
          else collect_frequent m ks min_frequency)"

text \<open>The loop over \<open>special_tokens\<close> of \<open>build_vocab_from_text\<close>.\<close>

fun add_special_tokens_loop :: "string list \<Rightarrow> tokenizer \<Rightarrow> tokenizer" where
  "add_special_tokens_loop [] t = t"
| "add_special_tokens_loop (token # rest) t =
     (if vocab_to_id t token = None then
        (let id' = int (length (id_to_vocab t))
         in add_special_tokens_loop rest
              (store_special_id token id'
                 (t\<lparr>vocab_to_id := (vocab_to_id t)(token \<mapsto> id'),
                    id_to_vocab := id_to_vocab t @ [token]\<rparr>)))
      else add_special_tokens_loop rest t)"

text \<open>
  The loop over \<open>sorted_tokens\<close>. The bound \<open>max_vocab_size - 4\<close> is computed in \<open>int\<close>
  each time the first conjunct holds; below \<open>INT_MIN + 4\<close> the subtraction overflows, which
  the language leaves undefined: the model reports it as \<open>SignedOverflow\<close>.
\<close>

definition INT_MIN :: int where
  "INT_MIN = - 2147483648"

fun add_regular_tokens :: "(string \<times> int) list \<Rightarrow> int \<Rightarrow> int \<Rightarrow> tokenizer \<Rightarrow> error + tokenizer" where
  "add_regular_tokens [] added max_vocab_size t = Inr t"
| "add_regular_tokens (pair # rest) added max_vocab_size t =
     (if vocab_to_id t (fst pair) = None then
        (if max_vocab_size - 4 < INT_MIN then Inl SignedOverflow
         else if added < max_vocab_size - 4 then
           (let id' = int (length (id_to_vocab t))
            in add_regular_tokens rest (added + 1) max_vocab_size
                 (t\<lparr>vocab_to_id := (vocab_to_id t)(fst pair \<mapsto> id'),
                    id_to_vocab := id_to_vocab t @ [fst pair]\<rparr>))
         else add_regular_tokens rest added max_vocab_size t)
      else add_regular_tokens rest added max_vocab_size t)"

text \<open>
  \<open>build_vocab_from_text\<close>. \<open>std::sort\<close> with the comparator \<open>a.second > b.second\<close>
  leaves the order of equal counts open; the stable sort below keeps the order of the
  enumeration among them, and the enumeration is arbitrary, so every order the C++ sort
  may produce is the result for some \<open>order\<close>.
\<close>

definition build_vocab_from_text ::
  "string list \<Rightarrow> string list \<Rightarrow> int \<Rightarrow> int \<Rightarrow> tokenizer \<Rightarrow> error + tokenizer" where
  "build_vocab_from_text order texts min_frequency max_vocab_size t =
     (let token_counts = count_texts t texts Map.empty;
          sorted_tokens = sort_key (\<lambda>p. - snd p) (collect_frequent token_counts order min_frequency);
          t1 = t\<lparr>vocab_to_id := Map.empty, id_to_vocab := []\<rparr>;
          special_tokens = [pad_token t1, unk_token t1, cls_token t1, sep_token t1];
          t2 = add_special_tokens_loop special_tokens t1
      in case add_regular_tokens sorted_tokens 0 max_vocab_size t2 of
           Inl e \<Rightarrow> Inl e
         | Inr t3 \<Rightarrow> Inr (t3\<lparr>use_vocab := True\<rparr>))"

section \<open>encode, decode and encode_sequence\<close>

text \<open>
  Token counts and ids are \<open>int\<close> in the source (\<open>static_cast<int>\<close> of a size); they are
  mathematical integers here, exact for every vocabulary and token list with fewer than
  \<open>2^31\<close> entries.
\<close>

function encode_indices :: "string list \<Rightarrow> nat \<Rightarrow> int list \<Rightarrow> int list" where
  "encode_indices tokens i ids =
     (if i < length tokens then encode_indices tokens (i + 1) (ids @ [int i]) else ids)"
  by pat_completeness auto
termination
  by (relation "measure (\<lambda>(tokens, i, ids). length tokens - i)") auto

declare encode_indices.simps [simp del]

fun encode_lookup :: "tokenizer \<Rightarrow> string list \<Rightarrow> int list \<Rightarrow> int list" where
  "encode_lookup t [] ids = ids"
| "encode_lookup t (token # rest) ids =
     (case vocab_to_id t token of
        Some id' \<Rightarrow> encode_lookup t rest (ids @ [id'])
      | None \<Rightarrow> encode_lookup t rest (ids @ [unk_id t]))"

definition encode :: "tokenizer \<Rightarrow> string \<Rightarrow> int list" where
  "encode t text =
     (let tokens = tokenize t text
      in if \<not> use_vocab t then encode_indices tokens 0 []
         else encode_lookup t tokens [])"

fun decode_loop :: "tokenizer \<Rightarrow> int list \<Rightarrow> string \<Rightarrow> bool \<Rightarrow> string" where
  "decode_loop t [] result first = result"
| "decode_loop t (id' # ids) result first =
     (if id' \<ge> 0 \<and> id' < int (length (id_to_vocab t)) then
        (let token = id_to_vocab t ! nat id'
         in if token = pad_token t then decode_loop t ids result first
            else decode_loop t ids
                   ((if \<not> first then result @ '' '' else result) @ token) False)
      else decode_loop t ids result first)"

definition decode :: "tokenizer \<Rightarrow> int list \<Rightarrow> string" where
  "decode t ids = (if \<not> use_vocab t then [] else decode_loop t ids [] True)"

definition vocab_size :: "tokenizer \<Rightarrow> nat" where
  "vocab_size t = (if use_vocab t then length (id_to_vocab t) else 0)"

text \<open>The copying \<open>for\<close> loop of \<open>encode_sequence\<close>, with its bound already computed.\<close>

function copy_ids :: "int list \<Rightarrow> int \<Rightarrow> int \<Rightarrow> int list \<Rightarrow> int list" where
  "copy_ids token_ids bound i result =
     (if i < bound then copy_ids token_ids bound (i + 1) (result @ [token_ids ! nat i])
      else result)"
  by pat_completeness auto
termination
  by (relation "measure (\<lambda>(token_ids, bound, i, result). nat (bound - i))") auto

declare copy_ids.simps [simp del]

text \<open>
  \<open>encode_sequence\<close>. Two steps of the source can fail and are branches of the model:
  \<^item> \<open>token_ids.resize(max_length)\<close> converts the \<open>int\<close> to \<open>size_t\<close>; a negative
    \<open>max_length\<close> becomes a size above \<open>max_size()\<close> and \<open>resize\<close> throws
    \<open>std::length_error\<close>;
  \<^item> \<open>max_length--\<close> and \<open>max_length - 1\<close> overflow at \<open>INT_MIN\<close>, which is undefined.
\<close>

definition encode_sequence :: "tokenizer \<Rightarrow> string \<Rightarrow> int \<Rightarrow> bool \<Rightarrow> error + int list" where
  "encode_sequence t text max_length add_special_tokens =
     (let token_ids = encode t text
      in if \<not> add_special_tokens \<or> \<not> use_vocab t then
           (if int (length token_ids) > max_length then
              (if max_length < 0 then Inl LengthError
               else Inr (take (nat max_length) token_ids))
            else Inr token_ids)
         else if cls_id t \<ge> 0 \<and> max_length - 1 < INT_MIN then Inl SignedOverflow
         else
           (let result1 = (if cls_id t \<ge> 0 then [cls_id t] else []);
                max_length1 = (if cls_id t \<ge> 0 then max_length - 1 else max_length)
            in if max_length1 - (if sep_id t \<ge> 0 then 1 else 0) < INT_MIN
               then Inl SignedOverflow
               else
                 (let available_length = max_length1 - (if sep_id t \<ge> 0 then 1 else 0);
                      result2 = copy_ids token_ids
                                  (min (int (length token_ids)) available_length) 0 result1
                  in Inr (if sep_id t \<ge> 0 then result2 @ [sep_id t] else result2))))"

section \<open>Definitions used to state the properties\<close>

text \<open>
  The decoded text as the specification words it: the ids outside \<open>[0, vocab_size)\<close>
  are dropped, then the pad tokens, and what remains is joined with single spaces.
\<close>

fun join_with_space :: "string list \<Rightarrow> string" where
  "join_with_space [] = []"
| "join_with_space [x] = x"
| "join_with_space (x # y # ys) = x @ '' '' @ join_with_space (y # ys)"

definition decode_spec :: "tokenizer \<Rightarrow> int list \<Rightarrow> string" where
  "decode_spec t ids =
     (if \<not> use_vocab t then []
      else join_with_space
             (filter (\<lambda>token. token \<noteq> pad_token t)
                (map (\<lambda>id'. id_to_vocab t ! nat id')
                   (filter (\<lambda>id'. 0 \<le> id' \<and> id' < int (vocab_size t)) ids))))"

text \<open>The number of markers \<open>encode_sequence\<close> adds: one for each valid special id.\<close>

definition special_count :: "tokenizer \<Rightarrow> int" where
  "special_count t = (if cls_id t \<ge> 0 then 1 else 0) + (if sep_id t \<ge> 0 then 1 else 0)"

text \<open>A small vocabulary with both markers, as \<open>load_vocab\<close> installs it from four lines.\<close>

definition vocab_cls_sep :: tokenizer where
  "vocab_cls_sep = snd (load_vocab (Some [''[CLS]'', ''[SEP]'', ''a'', ''b'']) TextTokenizer)"

text \<open>
  The entries a vocabulary file contributes: its lines without their trailing blanks,
  the empty ones dropped.
\<close>

definition vocab_lines :: "string list \<Rightarrow> string list" where
  "vocab_lines lines = filter (\<lambda>token. token \<noteq> []) (map rtrim lines)"

text \<open>
  The two tables are consistent: they have the same number of entries, the ids are
  exactly \<open>0..N-1\<close>, the token pushed at position \<open>i\<close> has the id \<open>i\<close>, and
  \<open>id_to_vocab[vocab_to_id[token]]\<close> is \<open>token\<close> for every entry of the map.
\<close>

definition tables_consistent :: "tokenizer \<Rightarrow> bool" where
  "tables_consistent t \<longleftrightarrow>
     card (dom (vocab_to_id t)) = length (id_to_vocab t) \<and>
     ran (vocab_to_id t) = int ` {0..<length (id_to_vocab t)} \<and>
     (\<forall>i<length (id_to_vocab t). vocab_to_id t (id_to_vocab t ! i) = Some (int i)) \<and>
     (\<forall>token id'. vocab_to_id t token = Some id' \<longrightarrow>
        0 \<le> id' \<and> nat id' < length (id_to_vocab t) \<and> id_to_vocab t ! nat id' = token)"

text \<open>The invariant of the installation loops from which consistency follows.\<close>

definition tables_agree :: "tokenizer \<Rightarrow> bool" where
  "tables_agree t \<longleftrightarrow>
     distinct (id_to_vocab t) \<and>
     dom (vocab_to_id t) = set (id_to_vocab t) \<and>
     (\<forall>i<length (id_to_vocab t). vocab_to_id t (id_to_vocab t ! i) = Some (int i))"

text \<open>
  Where the tokens come from: \<open>tokenize_spans\<close> is \<open>tokenize\<close> with every push of
  \<open>normalize_token(text.substr(pos, n))\<close> replaced by a push of \<open>(pos, n)\<close>. The lemma
  \<open>tokenize_slices\<close> below shows that \<open>tokenize\<close> returns exactly the normalized slices
  at these positions.
\<close>

function skip_run_spans ::
  "tokenizer \<Rightarrow> string \<Rightarrow> nat \<Rightarrow> nat \<Rightarrow> (nat \<times> nat) list \<Rightarrow> nat \<times> (nat \<times> nat) list" where
  "skip_run_spans t text start i spans =
     (if i < length text \<and> should_split_at t (text ! i) then
        skip_run_spans t text start (i + 1)
          (if keep_punctuation t \<and> is_ascii_punct (text ! i) \<and>
              i > start + (if i - start > 0 then 1 else 0)
           then spans @ [(i, 1)]
           else spans)
      else (i, spans))"
  by pat_completeness auto
termination
  by (relation "measure (\<lambda>(t, text, start, i, spans). length text - i)") auto

declare skip_run_spans.simps [simp del]

lemma skip_run_spans_advances:
  "i < length text \<Longrightarrow> should_split_at t (text ! i) \<Longrightarrow>
     i < fst (skip_run_spans t text start i spans)"
proof -
  have ge: "j \<le> fst (skip_run_spans t text start j sp)" for j sp
    by (induction t "text" start j sp rule: skip_run_spans.induct)
       (subst skip_run_spans.simps, auto)
  assume "i < length text" "should_split_at t (text ! i)"
  then have "fst (skip_run_spans t text start i spans) =
      fst (skip_run_spans t text start (i + 1)
          (if keep_punctuation t \<and> is_ascii_punct (text ! i) \<and>
              i > start + (if i - start > 0 then 1 else 0)
           then spans @ [(i, 1)]
           else spans))"
    by (subst skip_run_spans.simps) simp
  also have "\<dots> \<ge> i + 1" by (rule ge)
  finally show ?thesis by simp
qed

function tokenize_loop_spans ::
  "tokenizer \<Rightarrow> string \<Rightarrow> nat \<Rightarrow> nat \<Rightarrow> (nat \<times> nat) list \<Rightarrow> nat \<times> (nat \<times> nat) list" where
  "tokenize_loop_spans t text start i spans =
     (if i < length text then
        (if byte (text ! i) AND 0x80 \<noteq> 0
         then tokenize_loop_spans t text start (i + utf8_char_length (text ! i)) spans
         else if should_split_at t (text ! i) then
           (let spans1 =
                  (if i > start then
                     (if substr text start (i - start) \<noteq> []
                      then spans @ [(start, i - start)]
                      else spans)
                   else spans);
                spans2 =
                  (if keep_punctuation t \<and> is_ascii_punct (text ! i)
                   then spans1 @ [(i, 1)]
                   else spans1)
            in case skip_run_spans t text start i spans2 of
                 (i', spans3) \<Rightarrow> tokenize_loop_spans t text i' i' spans3)
         else tokenize_loop_spans t text start (i + 1) spans)
      else (start, spans))"
  by pat_completeness auto
termination
proof (relation "measure (\<lambda>(t, text, start, i, spans). length text - i)", goal_cases)
  case 1
  show ?case by simp
next
  case (2 t s start i spans)
  then show ?case by (simp add: utf8_char_length_pos diff_less_mono2)
next
  case (3 t s start i spans x xa xb y)
  then have "i < fst (skip_run_spans t s start i xa)"
    by (intro skip_run_spans_advances) auto
  moreover from 3 have "fst (skip_run_spans t s start i xa) = xb"
    by (metis fst_conv)
  ultimately show ?case using 3(1) by (simp add: diff_less_mono2)
next
  case (4 t s start i spans)
  then show ?case by (simp add: diff_less_mono2)
qed

declare tokenize_loop_spans.simps [simp del]

definition tokenize_spans :: "tokenizer \<Rightarrow> string \<Rightarrow> (nat \<times> nat) list" where
  "tokenize_spans t text =
     (case tokenize_loop_spans t text 0 0 [] of
        (start, spans) \<Rightarrow>
          if start < length text then
            (if substr_from text start \<noteq> []
             then spans @ [(start, length text - start)]
             else spans)
          else spans)"

text \<open>The token that \<open>tokenize\<close> pushes for a slice: its normalized copy.\<close>

definition slice_token :: "tokenizer \<Rightarrow> string \<Rightarrow> nat \<times> nat \<Rightarrow> string" where
  "slice_token t text span = normalize_token t (substr text (fst span) (snd span))"

text \<open>
  The characters of a text as the scanner reads them: a character starts at 0, and
  after a character that starts at \<open>b\<close> the next one starts \<open>utf8_char_length\<close> of
  its first byte further. For valid UTF-8 these are the code points.
\<close>

inductive boundary :: "string \<Rightarrow> nat \<Rightarrow> bool" for s :: string where
  boundary_zero: "boundary s 0"
| boundary_step: "boundary s b \<Longrightarrow> b < length s \<Longrightarrow>
     boundary s (b + utf8_char_length (s ! b))"

text \<open>
  A position is covered when it lies in one of the slices; a slice is aligned when it
  starts at a character boundary and ends at one, or at the end of the text; a dropped
  delimiter is an ASCII byte that is a character of its own and a splitting byte.
\<close>

definition covered :: "(nat \<times> nat) list \<Rightarrow> nat \<Rightarrow> bool" where
  "covered spans k \<longleftrightarrow> (\<exists>sp\<in>set spans. fst sp \<le> k \<and> k < fst sp + snd sp)"

definition good_span :: "string \<Rightarrow> nat \<times> nat \<Rightarrow> bool" where
  "good_span s sp \<longleftrightarrow>
     boundary s (fst sp) \<and> (boundary s (fst sp + snd sp) \<or> fst sp + snd sp = length s)"

definition dropped_delimiter :: "tokenizer \<Rightarrow> string \<Rightarrow> nat \<Rightarrow> bool" where
  "dropped_delimiter t s k \<longleftrightarrow>
     boundary s k \<and> byte (s ! k) AND 0x80 = 0 \<and> should_split_at t (s ! k)"

section \<open>count_tokens agrees with tokenize\<close>

lemma substr_nonempty: "start < i \<Longrightarrow> i < length s \<Longrightarrow> substr s start (i - start) \<noteq> []"
  by (simp add: substr_def)

lemma substr_from_nonempty: "start < length s \<Longrightarrow> substr_from s start \<noteq> []"
  by (simp add: substr_from_def)

lemma count_run_skip_run:
  "count_run t s start i (length tokens) = apsnd length (skip_run t s start i tokens)"
proof (induction t s start i tokens rule: skip_run.induct)
  case (1 t s start i tokens)
  show ?case
  proof (cases "i < length s \<and> should_split_at t (s ! i)")
    case True
    let ?toks = "if keep_punctuation t \<and> is_ascii_punct (s ! i) \<and>
              i > start + (if i - start > 0 then 1 else 0)
           then tokens @ [normalize_token t (substr s i 1)]
           else tokens"
    have lhs: "count_run t s start i (length tokens) = count_run t s start (i + 1) (length ?toks)"
      using True by (subst count_run.simps) auto
    have rhs: "skip_run t s start i tokens = skip_run t s start (i + 1) ?toks"
      using True by (subst skip_run.simps) simp
    show ?thesis
      unfolding lhs rhs by (rule 1[OF True])
  next
    case False
    then show ?thesis
      by (subst count_run.simps, subst skip_run.simps) (simp only: if_False apsnd_conv)
  qed
qed

lemma count_loop_tokenize_loop:
  "count_loop t s start i (length tokens) = apsnd length (tokenize_loop t s start i tokens)"
proof (induction t s start i tokens rule: tokenize_loop.induct)
  case (1 t s start i tokens)
  show ?case
  proof (cases "i < length s")
    case False
    then show ?thesis
      by (subst count_loop.simps, subst tokenize_loop.simps) simp
  next
    case inb: True
    show ?thesis
    proof (cases "byte (s ! i) AND 0x80 \<noteq> 0")
      case True
      with inb 1(1) show ?thesis
        by (subst count_loop.simps, subst tokenize_loop.simps) simp
    next
      case ascii: False
      show ?thesis
      proof (cases "should_split_at t (s ! i)")
        case False
        with inb ascii 1(3) show ?thesis
          by (subst count_loop.simps, subst tokenize_loop.simps) simp
      next
        case True
        define tokens1 where "tokens1 =
                  (if i > start then
                     (if substr s start (i - start) \<noteq> []
                      then tokens @ [normalize_token t (substr s start (i - start))]
                      else tokens)
                   else tokens)"
        define tokens2 where "tokens2 =
                  (if keep_punctuation t \<and> is_ascii_punct (s ! i)
                   then tokens1 @ [normalize_token t (substr s i 1)]
                   else tokens1)"
        obtain i' tokens3 where sr: "skip_run t s start i tokens2 = (i', tokens3)"
          by (cases "skip_run t s start i tokens2")
        have l1: "length tokens1 = (if i > start then length tokens + 1 else length tokens)"
          using inb by (simp add: tokens1_def substr_nonempty)
        have l2: "length tokens2 = (if keep_punctuation t \<and> is_ascii_punct (s ! i)
                   then length tokens1 + 1 else length tokens1)"
          by (simp add: tokens2_def)
        have cr: "count_run t s start i (length tokens2) = (i', length tokens3)"
          by (simp add: count_run_skip_run sr)
        have ih: "count_loop t s i' i' (length tokens3) = apsnd length (tokenize_loop t s i' i' tokens3)"
          using 1(2)[OF inb ascii True tokens1_def tokens2_def sr[symmetric]] .
        have lhs: "count_loop t s start i (length tokens) = count_loop t s i' i' (length tokens3)"
          using inb ascii True
          by (subst count_loop.simps)
             (simp only: Let_def l1[symmetric] l2[symmetric] cr if_True if_False prod.case simp_thms)
        have rhs: "tokenize_loop t s start i tokens = tokenize_loop t s i' i' tokens3"
          using inb ascii True
          by (subst tokenize_loop.simps)
             (simp only: Let_def tokens1_def[symmetric] tokens2_def[symmetric] sr
                if_True if_False prod.case simp_thms)
        show ?thesis by (simp only: lhs rhs ih)
      qed
    qed
  qed
qed

text \<open>
  Claim C3. For every input byte sequence and every configuration (delimiters, lowercase,
  keep_punctuation, split_on_punctuation), \<open>count_tokens\<close> returns the length of the
  sequence that \<open>tokenize\<close> returns. Nothing is assumed about the text: it may be
  empty, blank, all punctuation, or invalid UTF-8.
\<close>

theorem count_tokens_eq_length_tokenize:
  "count_tokens t s = length (tokenize t s)"
proof -
  obtain start tokens where tl: "tokenize_loop t s 0 0 [] = (start, tokens)"
    by (cases "tokenize_loop t s 0 0 []")
  have "count_loop t s 0 0 (length ([] :: string list)) = (start, length tokens)"
    by (simp only: count_loop_tokenize_loop tl) simp
  then have cl: "count_loop t s 0 0 0 = (start, length tokens)" by simp
  show ?thesis
    by (simp add: count_tokens_def tokenize_def tl cl substr_from_nonempty)
qed

section \<open>Punctuation inside a delimiter run\<close>

text \<open>
  Claim C1. With \<open>keep_punctuation\<close> and \<open>split_on_punctuation\<close> enabled, each
  punctuation byte of a delimiter run should become exactly one token. The guard
  \<open>i > start + (i - start > 0 ? 1 : 0)\<close> of the inner loop compares with the cursor of
  the slice before the run, not with the first byte of the run: after a slice of two or
  more bytes the first punctuation byte is emitted twice, and in a run that starts the
  slice the second punctuation byte is not emitted. \<open>tokenize("Hello, world!")\<close> with
  lowercase enabled returns six tokens and \<open>tokenize("!!!")\<close> returns two.
\<close>

theorem tokenize_punctuation_run_miscounts:
  "tokenize (set_keep_punctuation True (set_split_on_punctuation True
       (set_lowercase True TextTokenizer))) ''Hello, world!''
     = [''hello'', '','', '','', ''world'', ''!'', ''!''] \<and>
   tokenize (set_keep_punctuation True (set_split_on_punctuation True
       (set_lowercase True TextTokenizer))) ''!!!'' = [''!'', ''!'']"
  by code_simp

section \<open>Tokens are never empty\<close>

lemma copy_char_eq:
  "copy_char token i len j result = result @ take (len - j) (drop (i + j) token)"
proof (induction token i len j result rule: copy_char.induct)
  case (1 token i len j result)
  show ?case
  proof (cases "j < len \<and> i + j < length token")
    case True
    then have "take (len - j) (drop (i + j) token)
        = token ! (i + j) # take (len - (j + 1)) (drop (i + (j + 1)) token)"
      by (metis Cons_nth_drop_Suc Suc_diff_Suc Suc_eq_plus1 add_Suc_right take_Suc_Cons)
    with True 1 show ?thesis
      by (subst copy_char.simps) simp
  next
    case False
    then show ?thesis
      by (subst copy_char.simps) auto
  qed
qed

lemma normalize_loop_length:
  "length (normalize_loop token i result) = length result + (length token - i)"
proof (induction token i result rule: normalize_loop.induct)
  case (1 token i result)
  show ?case
  proof (cases "i < length token")
    case False
    then show ?thesis by (subst normalize_loop.simps) simp
  next
    case inb: True
    show ?thesis
    proof (cases "byte (token ! i) AND 0x80 = 0")
      case True
      with inb 1(1) show ?thesis
        by (subst normalize_loop.simps) simp
    next
      case False
      have "0 < utf8_char_length (token ! i)" by (rule utf8_char_length_pos)
      with inb False 1(2) show ?thesis
        by (subst normalize_loop.simps) (simp add: copy_char_eq min_def)
    qed
  qed
qed

lemma normalize_token_length: "length (normalize_token t token) = length token"
  by (simp add: normalize_token_def normalize_loop_length)

lemma normalize_token_nonempty: "token \<noteq> [] \<Longrightarrow> normalize_token t token \<noteq> []"
  using normalize_token_length[of t token] by auto

lemma substr_one_nonempty: "i < length s \<Longrightarrow> substr s i 1 \<noteq> []"
  by (simp add: substr_def)

lemma skip_run_nonempty:
  "[] \<notin> set tokens \<Longrightarrow> [] \<notin> set (snd (skip_run t s start i tokens))"
proof (induction t s start i tokens rule: skip_run.induct)
  case (1 t s start i tokens)
  show ?case
  proof (cases "i < length s \<and> should_split_at t (s ! i)")
    case True
    let ?toks = "if keep_punctuation t \<and> is_ascii_punct (s ! i) \<and>
              i > start + (if i - start > 0 then 1 else 0)
           then tokens @ [normalize_token t (substr s i 1)]
           else tokens"
    have "[] \<notin> set ?toks"
      using True "1.prems" by (auto dest: normalize_token_nonempty[OF substr_one_nonempty, symmetric])
    then have "[] \<notin> set (snd (skip_run t s start (i + 1) ?toks))"
      by (rule 1(1)[OF True])
    moreover have "skip_run t s start i tokens = skip_run t s start (i + 1) ?toks"
      using True by (subst skip_run.simps) simp
    ultimately show ?thesis by simp
  next
    case False
    then show ?thesis
      using "1.prems" by (subst skip_run.simps) (simp only: if_False snd_conv not_False_eq_True)
  qed
qed


lemma tokenize_loop_nonempty:
  "[] \<notin> set tokens \<Longrightarrow> [] \<notin> set (snd (tokenize_loop t s start i tokens))"
proof (induction t s start i tokens rule: tokenize_loop.induct)
  case (1 t s start i tokens)
  show ?case
  proof (cases "i < length s")
    case False
    then show ?thesis
      using "1.prems" by (subst tokenize_loop.simps) simp
  next
    case inb: True
    show ?thesis
    proof (cases "byte (s ! i) AND 0x80 \<noteq> 0")
      case True
      with inb 1(1) "1.prems" show ?thesis
        by (subst tokenize_loop.simps) simp
    next
      case ascii: False
      show ?thesis
      proof (cases "should_split_at t (s ! i)")
        case False
        with inb ascii 1(3) "1.prems" show ?thesis
          by (subst tokenize_loop.simps) simp
      next
        case True
        define tokens1 where "tokens1 =
                  (if i > start then
                     (if substr s start (i - start) \<noteq> []
                      then tokens @ [normalize_token t (substr s start (i - start))]
                      else tokens)
                   else tokens)"
        define tokens2 where "tokens2 =
                  (if keep_punctuation t \<and> is_ascii_punct (s ! i)
                   then tokens1 @ [normalize_token t (substr s i 1)]
                   else tokens1)"
        obtain i' tokens3 where sr: "skip_run t s start i tokens2 = (i', tokens3)"
          by (cases "skip_run t s start i tokens2")
        have n1: "[] \<notin> set tokens1"
          using "1.prems" by (auto simp: tokens1_def dest: normalize_token_nonempty[symmetric])
        have n2: "[] \<notin> set tokens2"
          using n1 inb
          by (auto simp: tokens2_def dest: normalize_token_nonempty[OF substr_one_nonempty, symmetric])
        have n3: "[] \<notin> set tokens3"
          using skip_run_nonempty[OF n2, of t s start i] by (simp add: sr)
        have ih: "[] \<notin> set (snd (tokenize_loop t s i' i' tokens3))"
          using 1(2)[OF inb ascii True tokens1_def tokens2_def sr[symmetric] n3] .
        have "tokenize_loop t s start i tokens = tokenize_loop t s i' i' tokens3"
          using inb ascii True
          by (subst tokenize_loop.simps)
             (simp only: Let_def tokens1_def[symmetric] tokens2_def[symmetric] sr
                if_True if_False prod.case simp_thms)
        with ih show ?thesis by simp
      qed
    qed
  qed
qed

text \<open>
  Claim C10. For every input byte sequence and every configuration, no token returned by
  \<open>tokenize\<close> is the empty string. Normalization keeps the length of a slice, also when
  the slice ends inside a multi-byte character, and every slice that is pushed has at
  least one byte.
\<close>

theorem tokenize_tokens_nonempty: "[] \<notin> set (tokenize t s)"
proof -
  obtain start tokens where tl: "tokenize_loop t s 0 0 [] = (start, tokens)"
    by (cases "tokenize_loop t s 0 0 []")
  have "[] \<notin> set (snd (tokenize_loop t s 0 0 []))"
    by (rule tokenize_loop_nonempty) simp
  then have "[] \<notin> set tokens" by (simp add: tl)
  then show ?thesis
    by (auto simp: tokenize_def tl dest: normalize_token_nonempty[symmetric])
qed

section \<open>decode\<close>

lemma join_with_space_Cons:
  "join_with_space (x # xs) = x @ (if xs = [] then [] else '' '' @ join_with_space xs)"
  by (cases xs) simp_all

lemma decode_loop_eq:
  "decode_loop t ids result first =
     (let kept = filter (\<lambda>token. token \<noteq> pad_token t)
                (map (\<lambda>id'. id_to_vocab t ! nat id')
                   (filter (\<lambda>id'. 0 \<le> id' \<and> id' < int (length (id_to_vocab t))) ids))
      in if kept = [] then result
         else (if \<not> first then result @ '' '' else result) @ join_with_space kept)"
proof (induction ids arbitrary: result first)
  case Nil
  show ?case by simp
next
  case (Cons a ids)
  show ?case
    by (simp add: Cons.IH Let_def join_with_space_Cons)
qed

text \<open>
  Claim C7. For every id list, \<open>decode\<close> returns the empty string when no vocabulary
  is installed; otherwise it goes through the ids in order, skips every id outside
  \<open>[0, vocab_size)\<close>, skips every id whose token is the pad-token string, and joins the
  remaining tokens with one space between neighbours and none before the first or after
  the last. The cls, sep and unk tokens are not filtered: they appear literally.
\<close>

theorem decode_joins_kept_tokens: "decode t ids = decode_spec t ids"
  by (simp add: decode_def decode_spec_def decode_loop_eq vocab_size_def Let_def)

section \<open>encode\<close>

lemma encode_indices_eq:
  "encode_indices tokens i ids = ids @ map int [i..<length tokens]"
proof (induction tokens i ids rule: encode_indices.induct)
  case (1 tokens i ids)
  show ?case
  proof (cases "i < length tokens")
    case True
    with 1 show ?thesis
      by (subst encode_indices.simps) (simp add: upt_conv_Cons)
  next
    case False
    then show ?thesis by (subst encode_indices.simps) simp
  qed
qed

lemma encode_lookup_eq:
  "encode_lookup t tokens ids =
     ids @ map (\<lambda>token. case vocab_to_id t token of Some id' \<Rightarrow> id' | None \<Rightarrow> unk_id t) tokens"
  by (induction tokens arbitrary: ids) (simp_all split: option.splits)

text \<open>
  Claim C8. Without a vocabulary \<open>encode\<close> returns the positions 0, 1, 2, ... of the
  tokens of \<open>tokenize\<close>; with a vocabulary it returns, position by position, the id of
  the token in the vocabulary, or \<open>unk_id\<close> when the token is not an entry. That id can
  be \<open>-1\<close>: after loading the one-line vocabulary \<open>a\<close>, the text \<open>a b\<close> encodes to
  \<open>[0, -1]\<close>.
\<close>

theorem encode_positional_or_lookup:
  "encode t s =
     (if \<not> use_vocab t then map int [0..<length (tokenize t s)]
      else map (\<lambda>token. case vocab_to_id t token of Some id' \<Rightarrow> id' | None \<Rightarrow> unk_id t)
             (tokenize t s)) \<and>
   encode (snd (load_vocab (Some [''a'']) TextTokenizer)) ''a b'' = [0, - 1]"
proof -
  have "encode (snd (load_vocab (Some [''a'']) TextTokenizer)) ''a b'' = [0, - 1]"
    by code_simp
  then show ?thesis
    by (simp add: encode_def encode_indices_eq encode_lookup_eq Let_def)
qed

section \<open>encode_sequence\<close>

lemma copy_ids_eq:
  "0 \<le> i \<Longrightarrow> bound \<le> int (length token_ids) \<Longrightarrow>
     copy_ids token_ids bound i result = result @ take (nat bound - nat i) (drop (nat i) token_ids)"
proof (induction token_ids bound i result rule: copy_ids.induct)
  case (1 token_ids bound i result)
  show ?case
  proof (cases "i < bound")
    case True
    then have lt: "nat i < length token_ids" using "1.prems" by linarith
    have "take (nat bound - nat i) (drop (nat i) token_ids)
            = token_ids ! nat i # take (nat bound - nat (i + 1)) (drop (nat (i + 1)) token_ids)"
    proof -
      have "nat bound - nat i = Suc (nat bound - nat (i + 1))"
        using True "1.prems" by linarith
      moreover have "drop (nat i) token_ids = token_ids ! nat i # drop (nat (i + 1)) token_ids"
        using lt "1.prems"(1) by (simp add: Cons_nth_drop_Suc nat_add_distrib)
      ultimately show ?thesis by simp
    qed
    moreover have "copy_ids token_ids bound (i + 1) (result @ [token_ids ! nat i])
        = (result @ [token_ids ! nat i]) @ take (nat bound - nat (i + 1)) (drop (nat (i + 1)) token_ids)"
      using 1(1)[OF True] "1.prems" by simp
    ultimately show ?thesis
      using True by (subst copy_ids.simps) simp
  next
    case False
    then have "nat bound - nat i = 0" by linarith
    with False show ?thesis by (subst copy_ids.simps) simp
  qed
qed

lemma copy_ids_take:
  "copy_ids token_ids (min (int (length token_ids)) available_length) 0 result
     = result @ take (nat available_length) token_ids"
proof -
  have "take (nat (min (int (length token_ids)) available_length)) token_ids
          = take (nat available_length) token_ids"
    by (cases "int (length token_ids) \<le> available_length") (simp_all add: min_def)
  then show ?thesis
    by (subst copy_ids_eq) simp_all
qed

text \<open>
  Claim C2, as the code has it. With a vocabulary installed and special tokens requested,
  for every text and every \<open>max_length\<close> from \<open>INT_MIN + 2\<close> up (so that the two
  decrements stay in range), \<open>encode_sequence\<close> returns the cls id if it is valid, then
  the first \<open>max_length - k\<close> encoded ids (none when that is not positive), then the sep
  id if it is valid, where \<open>k\<close> is the number of valid markers. The markers are added
  whatever \<open>max_length\<close> is, so the length is bounded by the larger of \<open>max_length\<close> and
  \<open>k\<close>: by \<open>max_length\<close> itself exactly when \<open>max_length\<close> is at least \<open>k\<close>.
\<close>

theorem encode_sequence_special_layout:
  assumes "use_vocab t" and "INT_MIN + 2 \<le> max_length"
  shows "\<exists>r. encode_sequence t s max_length True = Inr r \<and>
           r = (if cls_id t \<ge> 0 then [cls_id t] else [])
               @ take (nat (max_length - special_count t)) (encode t s)
               @ (if sep_id t \<ge> 0 then [sep_id t] else []) \<and>
           int (length r) \<le> max max_length (special_count t)"
proof -
  have "encode_sequence t s max_length True =
      Inr ((if cls_id t \<ge> 0 then [cls_id t] else [])
               @ take (nat (max_length - special_count t)) (encode t s)
               @ (if sep_id t \<ge> 0 then [sep_id t] else []))"
    using assms
    by (cases "cls_id t \<ge> 0"; cases "sep_id t \<ge> 0")
       (simp_all add: encode_sequence_def Let_def copy_ids_take special_count_def)
  moreover have "int (length ((if cls_id t \<ge> 0 then [cls_id t] else [])
               @ take (nat (max_length - special_count t)) (encode t s)
               @ (if sep_id t \<ge> 0 then [sep_id t] else []))) \<le> max max_length (special_count t)"
    by (auto simp: special_count_def min_def max_def)
  ultimately show ?thesis by blast
qed

theorem encode_sequence_special_layout_witness:
  "use_vocab vocab_cls_sep \<and> INT_MIN + 2 \<le> 4 \<and>
   encode_sequence vocab_cls_sep ''a b b'' 4 True = Inr [0, 2, 3, 1]"
proof -
  have u: "use_vocab vocab_cls_sep" by code_simp
  have m: "INT_MIN + 2 \<le> 4" by (simp add: INT_MIN_def)
  have c: "cls_id vocab_cls_sep = 0" by code_simp
  have p: "sep_id vocab_cls_sep = 1" by code_simp
  have k: "special_count vocab_cls_sep = 2" by code_simp
  have e: "encode vocab_cls_sep ''a b b'' = [2, 3, 3]" by code_simp
  from encode_sequence_special_layout[OF u m, of "''a b b''"]
  have "encode_sequence vocab_cls_sep ''a b b'' 4 True = Inr [0, 2, 3, 1]"
    by (simp add: c p k e)
  with u m show ?thesis by simp
qed

text \<open>
  The bound of claim C2 as it was stated, "the length is at most \<open>max_length\<close>", fails
  when \<open>max_length\<close> is smaller than the number of valid markers: with both markers in
  the vocabulary and \<open>max_length = 1\<close> the result has two ids.
\<close>

theorem encode_sequence_exceeds_max_length:
  "encode_sequence (snd (load_vocab (Some [''[CLS]'', ''[SEP]'', ''a'']) TextTokenizer)) ''a'' 1 True
     = Inr [0, 1] \<and> \<not> int (length [0, 1 :: int]) \<le> 1"
  by code_simp

text \<open>
  Claim C6. For \<open>max_length \<le> 0\<close> no content id should be copied and no error raised,
  on both paths. On the truncation-only path a negative \<open>max_length\<close> is below every
  size, so \<open>token_ids.resize(max_length)\<close> is called with the value converted to
  \<open>size_t\<close> and throws \<open>std::length_error\<close>, even for the empty text. The path with
  special tokens copies nothing for a negative budget.
\<close>

theorem encode_sequence_negative_max_length_throws:
  "encode_sequence TextTokenizer ''a'' (- 1) False = Inl LengthError \<and>
   encode_sequence TextTokenizer [] (- 1) True = Inl LengthError \<and>
   encode_sequence (snd (load_vocab (Some [''a'']) TextTokenizer)) ''a'' (- 1) False = Inl LengthError"
  by code_simp

theorem encode_sequence_negative_max_length_no_result:
  "encode_sequence TextTokenizer ''a'' (- 1) False \<noteq> Inr []"
  using encode_sequence_negative_max_length_throws by simp

section \<open>Special-token ids after a second load\<close>

text \<open>
  Claim C4. A special-token id should be \<open>-1\<close> exactly when its string is not an entry
  of the installed vocabulary. \<open>load_vocab\<close> clears both tables but not the four ids:
  after loading a vocabulary with \<open>[CLS]\<close> and then one without it, \<open>cls_id\<close> is still
  0 although \<open>[CLS]\<close> is not an entry any more.
\<close>

theorem reload_keeps_stale_special_id:
  "cls_id (snd (load_vocab (Some [''a''])
       (snd (load_vocab (Some [''[CLS]'']) TextTokenizer)))) = 0 \<and>
   vocab_to_id (snd (load_vocab (Some [''a''])
       (snd (load_vocab (Some [''[CLS]'']) TextTokenizer)))) ''[CLS]'' = None \<and>
   cls_token (snd (load_vocab (Some [''a''])
       (snd (load_vocab (Some [''[CLS]'']) TextTokenizer)))) = ''[CLS]''"
  by code_simp

section \<open>Consistency of the vocabulary tables\<close>

lemma tables_agree_consistent:
  assumes "tables_agree t"
  shows "tables_consistent t"
proof -
  let ?m = "vocab_to_id t" and ?l = "id_to_vocab t"
  from assms have d: "distinct ?l" and dm: "dom ?m = set ?l"
    and ix: "\<And>i. i < length ?l \<Longrightarrow> ?m (?l ! i) = Some (int i)"
    by (auto simp: tables_agree_def)
  have c: "card (dom ?m) = length ?l"
    using d dm by (simp add: distinct_card)
  have inv: "0 \<le> id' \<and> nat id' < length ?l \<and> ?l ! nat id' = token"
    if "?m token = Some id'" for token id'
  proof -
    from that dm have "token \<in> set ?l" by auto
    then obtain i where i: "i < length ?l" "?l ! i = token"
      by (auto simp: in_set_conv_nth)
    with ix[of i] that have "id' = int i" by simp
    with i show ?thesis by simp
  qed
  have r: "ran ?m = int ` {0..<length ?l}"
  proof (rule set_eqI, rule iffI)
    fix x assume "x \<in> ran ?m"
    then obtain token where "?m token = Some x" by (auto simp: ran_def)
    from inv[OF this] show "x \<in> int ` {0..<length ?l}"
      by (auto simp: image_iff intro!: bexI[of _ "nat x"])
  next
    fix x assume "x \<in> int ` {0..<length ?l}"
    then obtain i where "i < length ?l" "x = int i" by auto
    with ix[of i] show "x \<in> ran ?m" by (auto simp: ran_def)
  qed
  show ?thesis
    unfolding tables_consistent_def using c r ix inv by blast
qed

lemma tables_agree_insert:
  assumes "tables_agree t" and "token \<notin> set (id_to_vocab t)"
  shows "tables_agree (t\<lparr>vocab_to_id := (vocab_to_id t)(token \<mapsto> int (length (id_to_vocab t))),
                         id_to_vocab := id_to_vocab t @ [token]\<rparr>)"
  using assms
  by (auto simp: tables_agree_def nth_append less_Suc_eq)

lemma store_special_id_tables [simp]:
  "vocab_to_id (store_special_id token id' t) = vocab_to_id t"
  "id_to_vocab (store_special_id token id' t) = id_to_vocab t"
  by (simp_all add: store_special_id_def)

lemma tables_agree_store_special_id [simp]:
  "tables_agree (store_special_id token id' t) = tables_agree t"
  by (simp add: tables_agree_def)

lemma tables_agree_use_vocab [simp]:
  "tables_agree (t\<lparr>use_vocab := b\<rparr>) = tables_agree t"
  by (simp add: tables_agree_def)

lemma load_lines_agree:
  assumes "tables_agree t" and "id' = int (length (id_to_vocab t))"
    and "distinct (vocab_lines lines)"
    and "set (vocab_lines lines) \<inter> set (id_to_vocab t) = {}"
  shows "tables_agree (load_lines lines id' t) \<and>
         id_to_vocab (load_lines lines id' t) = id_to_vocab t @ vocab_lines lines"
  using assms
proof (induction lines arbitrary: id' t)
  case Nil
  then show ?case by (simp add: vocab_lines_def)
next
  case (Cons line rest)
  show ?case
  proof (cases "rtrim line = []")
    case True
    with Cons.prems have "tables_agree (load_lines rest id' t) \<and>
         id_to_vocab (load_lines rest id' t) = id_to_vocab t @ vocab_lines rest"
      by (intro Cons.IH) (simp_all add: vocab_lines_def)
    with True show ?thesis by (simp add: vocab_lines_def)
  next
    case False
    let ?token = "rtrim line"
    let ?t = "store_special_id ?token id'
                (t\<lparr>vocab_to_id := (vocab_to_id t)(?token \<mapsto> id'),
                   id_to_vocab := id_to_vocab t @ [?token]\<rparr>)"
    have vl: "vocab_lines (line # rest) = ?token # vocab_lines rest"
      using False by (simp add: vocab_lines_def)
    have new: "?token \<notin> set (id_to_vocab t)"
      using Cons.prems(4) by (auto simp: vl)
    have "tables_agree ?t"
      using tables_agree_insert[OF Cons.prems(1) new] Cons.prems(2) by simp
    moreover have "id' + 1 = int (length (id_to_vocab ?t))"
      using Cons.prems(2) by simp
    moreover have "distinct (vocab_lines rest)"
      using Cons.prems(3) by (simp add: vl)
    moreover have "set (vocab_lines rest) \<inter> set (id_to_vocab ?t) = {}"
      using Cons.prems(3,4) by (auto simp: vl)
    ultimately have "tables_agree (load_lines rest (id' + 1) ?t) \<and>
         id_to_vocab (load_lines rest (id' + 1) ?t) = id_to_vocab ?t @ vocab_lines rest"
      by (rule Cons.IH)
    with False show ?thesis by (simp add: vl Let_def)
  qed
qed

lemma tables_agree_None:
  "tables_agree t \<Longrightarrow> vocab_to_id t token = None \<longleftrightarrow> token \<notin> set (id_to_vocab t)"
  unfolding tables_agree_def by (metis domIff)

lemma add_special_tokens_loop_agree:
  "tables_agree t \<Longrightarrow> tables_agree (add_special_tokens_loop special_tokens t)"
proof (induction special_tokens arbitrary: t)
  case Nil
  then show ?case by simp
next
  case (Cons token rest)
  show ?case
  proof (cases "vocab_to_id t token = None")
    case True
    then have "token \<notin> set (id_to_vocab t)"
      using Cons.prems by (simp add: tables_agree_None)
    from tables_agree_insert[OF Cons.prems this] True show ?thesis
      by (simp add: Let_def Cons.IH)
  next
    case False
    with Cons show ?thesis by auto
  qed
qed

lemma add_regular_tokens_agree:
  "tables_agree t \<Longrightarrow> add_regular_tokens sorted_tokens added max_vocab_size t = Inr t'
     \<Longrightarrow> tables_agree t'"
proof (induction sorted_tokens arbitrary: t added)
  case Nil
  then show ?case by simp
next
  case (Cons pair rest)
  show ?case
  proof (cases "vocab_to_id t (fst pair) = None \<and> added < max_vocab_size - 4")
    case True
    then have "fst pair \<notin> set (id_to_vocab t)"
      using Cons.prems(1) by (simp add: tables_agree_None)
    from tables_agree_insert[OF Cons.prems(1) this] Cons.prems(2) True show ?thesis
      by (auto simp: Let_def split: if_splits intro: Cons.IH)
  next
    case False
    with Cons.prems show ?thesis
      by (auto split: if_splits intro: Cons.IH)
  qed
qed

lemma tables_agree_cleared:
  "tables_agree (t\<lparr>vocab_to_id := Map.empty, id_to_vocab := []\<rparr>)"
  by (simp add: tables_agree_def)

text \<open>
  Claim C5, as the code has it. After \<open>load_vocab\<close> from lines whose entries (trimmed,
  non-empty) are pairwise distinct, and after every \<open>build_vocab_from_text\<close> that
  returns, the token-to-id map and the id-to-token sequence are consistent: same number
  of entries, ids exactly \<open>0..N-1\<close> in insertion order, and
  \<open>id_to_vocab[vocab_to_id[token]] = token\<close> for every token of the map. After a load
  the sequence is the list of entries of the file. \<open>load_vocab\<close> numbers the entries by
  their position and does not look for repetitions; \<open>build_vocab_from_text\<close> inserts a
  token only when the map does not have it.
\<close>

theorem installation_tables_consistent:
  "(distinct (vocab_lines lines) \<longrightarrow>
      tables_consistent (snd (load_vocab (Some lines) t)) \<and>
      id_to_vocab (snd (load_vocab (Some lines) t)) = vocab_lines lines) \<and>
   (\<forall>t'. build_vocab_from_text order texts min_frequency max_vocab_size t = Inr t' \<longrightarrow>
      tables_consistent t')"
proof (intro conjI impI allI)
  assume d: "distinct (vocab_lines lines)"
  let ?t0 = "t\<lparr>vocab_to_id := Map.empty, id_to_vocab := []\<rparr>"
  have "tables_agree (load_lines lines 0 ?t0) \<and>
        id_to_vocab (load_lines lines 0 ?t0) = id_to_vocab ?t0 @ vocab_lines lines"
    by (rule load_lines_agree[OF tables_agree_cleared _ d]) simp_all
  then have a: "tables_agree (snd (load_vocab (Some lines) t))"
    and l: "id_to_vocab (snd (load_vocab (Some lines) t)) = vocab_lines lines"
    by (simp_all add: load_vocab_def)
  from a show "tables_consistent (snd (load_vocab (Some lines) t))"
    by (rule tables_agree_consistent)
  from l show "id_to_vocab (snd (load_vocab (Some lines) t)) = vocab_lines lines" .
next
  fix t'
  assume b: "build_vocab_from_text order texts min_frequency max_vocab_size t = Inr t'"
  let ?t1 = "t\<lparr>vocab_to_id := Map.empty, id_to_vocab := []\<rparr>"
  let ?t2 = "add_special_tokens_loop [pad_token ?t1, unk_token ?t1, cls_token ?t1, sep_token ?t1] ?t1"
  have a2: "tables_agree ?t2"
    by (rule add_special_tokens_loop_agree[OF tables_agree_cleared])
  from b obtain t3 where t3: "add_regular_tokens
      (sort_key (\<lambda>p. - snd p)
         (collect_frequent (count_texts t texts Map.empty) order min_frequency))
      0 max_vocab_size ?t2 = Inr t3" and t': "t' = t3\<lparr>use_vocab := True\<rparr>"
    by (auto simp: build_vocab_from_text_def Let_def split: sum.splits)
  from add_regular_tokens_agree[OF a2 t3] have "tables_agree t'"
    by (simp add: t')
  then show "tables_consistent t'" by (rule tables_agree_consistent)
qed

theorem installation_tables_consistent_witness:
  "distinct (vocab_lines [''[PAD]'', ''a '', '' '']) \<and>
   tables_consistent (snd (load_vocab (Some [''[PAD]'', ''a '', '' '']) TextTokenizer)) \<and>
   id_to_vocab (snd (load_vocab (Some [''[PAD]'', ''a '', '' '']) TextTokenizer))
     = [''[PAD]'', ''a''] \<and>
   tables_consistent
     (projr (build_vocab_from_text [''b'', ''a''] [''a b a''] 1 10 TextTokenizer))"
proof -
  have d: "distinct (vocab_lines [''[PAD]'', ''a '', '' ''])"
    by code_simp
  have v: "vocab_lines [''[PAD]'', ''a '', '' ''] = [''[PAD]'', ''a'']"
    by code_simp
  have "\<not> isl (build_vocab_from_text [''b'', ''a''] [''a b a''] 1 10 TextTokenizer)"
    by code_simp
  then have b: "build_vocab_from_text [''b'', ''a''] [''a b a''] 1 10 TextTokenizer
      = Inr (projr (build_vocab_from_text [''b'', ''a''] [''a b a''] 1 10 TextTokenizer))"
    by simp
  from installation_tables_consistent[where lines = "[''[PAD]'', ''a '', '' '']"
      and t = TextTokenizer and order = "[''b'', ''a'']" and texts = "[''a b a'']"
      and min_frequency = 1 and max_vocab_size = 10] d v b
  show ?thesis by auto
qed

text \<open>
  Claim C5 as it was stated, for every list of lines, fails when a line is repeated: the
  map keeps one entry (with the later id) and the sequence keeps both.
\<close>

theorem duplicate_lines_counterexample:
  "card (dom (vocab_to_id (snd (load_vocab (Some [''a'', ''a'']) TextTokenizer)))) = 1 \<and>
   length (id_to_vocab (snd (load_vocab (Some [''a'', ''a'']) TextTokenizer))) = 2"
  by (simp add: load_vocab_def TextTokenizer_def rtrim_def store_special_id_def Let_def)

section \<open>Multi-byte characters\<close>

lemma skip_run_slices:
  "skip_run t s start i (map (slice_token t s) spans)
     = apsnd (map (slice_token t s)) (skip_run_spans t s start i spans)"
proof (induction t s start i spans rule: skip_run_spans.induct)
  case (1 t s start i spans)
  show ?case
  proof (cases "i < length s \<and> should_split_at t (s ! i)")
    case True
    let ?c = "keep_punctuation t \<and> is_ascii_punct (s ! i) \<and>
              i > start + (if i - start > 0 then 1 else 0)"
    let ?sp = "if ?c then spans @ [(i, 1)] else spans"
    have lhs: "skip_run t s start i (map (slice_token t s) spans)
        = skip_run t s start (i + 1) (map (slice_token t s) ?sp)"
      using True by (subst skip_run.simps) (auto simp: slice_token_def)
    have rhs: "skip_run_spans t s start i spans = skip_run_spans t s start (i + 1) ?sp"
      using True by (subst skip_run_spans.simps) simp
    show ?thesis
      unfolding lhs rhs by (rule 1[OF True])
  next
    case False
    then show ?thesis
      by (subst skip_run.simps, subst skip_run_spans.simps) (simp only: if_False apsnd_conv)
  qed
qed

lemma tokenize_loop_slices:
  "tokenize_loop t s start i (map (slice_token t s) spans)
     = apsnd (map (slice_token t s)) (tokenize_loop_spans t s start i spans)"
proof (induction t s start i spans rule: tokenize_loop_spans.induct)
  case (1 t s start i spans)
  show ?case
  proof (cases "i < length s")
    case False
    then show ?thesis
      by (subst tokenize_loop.simps, subst tokenize_loop_spans.simps) simp
  next
    case inb: True
    show ?thesis
    proof (cases "byte (s ! i) AND 0x80 \<noteq> 0")
      case True
      with inb 1(1) show ?thesis
        by (subst tokenize_loop.simps, subst tokenize_loop_spans.simps) simp
    next
      case ascii: False
      show ?thesis
      proof (cases "should_split_at t (s ! i)")
        case False
        with inb ascii 1(3) show ?thesis
          by (subst tokenize_loop.simps, subst tokenize_loop_spans.simps) simp
      next
        case True
        define spans1 where "spans1 =
                  (if i > start then
                     (if substr s start (i - start) \<noteq> []
                      then spans @ [(start, i - start)]
                      else spans)
                   else spans)"
        define spans2 where "spans2 =
                  (if keep_punctuation t \<and> is_ascii_punct (s ! i)
                   then spans1 @ [(i, 1)]
                   else spans1)"
        obtain i' spans3 where sr: "skip_run_spans t s start i spans2 = (i', spans3)"
          by (cases "skip_run_spans t s start i spans2")
        let ?f = "slice_token t s"
        have m1: "(if i > start then
                     (if substr s start (i - start) \<noteq> []
                      then map ?f spans @ [normalize_token t (substr s start (i - start))]
                      else map ?f spans)
                   else map ?f spans) = map ?f spans1"
          by (simp add: spans1_def slice_token_def)
        have m2: "(if keep_punctuation t \<and> is_ascii_punct (s ! i)
                   then map ?f spans1 @ [normalize_token t (substr s i 1)]
                   else map ?f spans1) = map ?f spans2"
          by (simp add: spans2_def slice_token_def)
        have sk: "skip_run t s start i (map ?f spans2) = (i', map ?f spans3)"
          by (simp add: skip_run_slices sr)
        have ih: "tokenize_loop t s i' i' (map ?f spans3)
            = apsnd (map ?f) (tokenize_loop_spans t s i' i' spans3)"
          using 1(2)[OF inb ascii True spans1_def spans2_def sr[symmetric]] .
        have lhs: "tokenize_loop t s start i (map ?f spans) = tokenize_loop t s i' i' (map ?f spans3)"
          using inb ascii True
          by (subst tokenize_loop.simps)
             (simp only: Let_def m1 m2 sk if_True if_False prod.case simp_thms)
        have rhs: "tokenize_loop_spans t s start i spans = tokenize_loop_spans t s i' i' spans3"
          using inb ascii True
          by (subst tokenize_loop_spans.simps)
             (simp only: Let_def spans1_def[symmetric] spans2_def[symmetric] sr
                if_True if_False prod.case simp_thms)
        show ?thesis by (simp only: lhs rhs ih)
      qed
    qed
  qed
qed

lemma tokenize_slices: "tokenize t s = map (slice_token t s) (tokenize_spans t s)"
proof -
  obtain start spans where tl: "tokenize_loop_spans t s 0 0 [] = (start, spans)"
    by (cases "tokenize_loop_spans t s 0 0 []")
  have "tokenize_loop t s 0 0 (map (slice_token t s) []) = (start, map (slice_token t s) spans)"
    by (simp only: tokenize_loop_slices tl) simp
  then have cl: "tokenize_loop t s 0 0 [] = (start, map (slice_token t s) spans)" by simp
  show ?thesis
    by (simp add: tokenize_def tokenize_spans_def tl cl slice_token_def substr_def substr_from_def)
qed

lemma good_span_pair:
  "good_span s (p, n) \<longleftrightarrow> boundary s p \<and> (boundary s (p + n) \<or> p + n = length s)"
  by (simp add: good_span_def)

lemma ascii_char_length: "byte c AND 0x80 = 0 \<Longrightarrow> utf8_char_length c = 1"
  by (simp add: utf8_char_length_def)

lemma high_bit_iff: "byte c AND 0x80 = 0 \<longleftrightarrow> (of_char c :: nat) < 128"
  by (cases c) simp

lemma punct_is_ascii: "is_ascii_punct c \<Longrightarrow> byte c AND 0x80 = 0"
  by (auto simp: high_bit_iff is_ascii_punct_def Let_def)

lemma split_is_ascii:
  "\<forall>d\<in>delimiters t. byte d AND 0x80 = 0 \<Longrightarrow> should_split_at t c \<Longrightarrow> byte c AND 0x80 = 0"
  by (auto simp: should_split_at_def punct_is_ascii)

lemma boundary_ascii_step:
  "boundary s i \<Longrightarrow> i < length s \<Longrightarrow> byte (s ! i) AND 0x80 = 0 \<Longrightarrow> boundary s (i + 1)"
  using boundary_step[of s i] by (simp add: ascii_char_length)

lemma covered_append: "covered spans k \<Longrightarrow> covered (spans @ rest) k"
  by (auto simp: covered_def)

lemma covered_last: "p \<le> k \<Longrightarrow> k < p + n \<Longrightarrow> covered (spans @ [(p, n)]) k"
  by (auto simp: covered_def)

lemma skip_run_spans_inv:
  "\<forall>d\<in>delimiters t. byte d AND 0x80 = 0 \<Longrightarrow>
     boundary s i \<Longrightarrow> list_all (good_span s) spans \<Longrightarrow>
     (\<forall>k<i. covered spans k \<or> dropped_delimiter t s k) \<Longrightarrow>
     skip_run_spans t s start i spans = (i', spans') \<Longrightarrow>
     boundary s i' \<and> list_all (good_span s) spans' \<and>
     (\<forall>k<i'. covered spans' k \<or> dropped_delimiter t s k)"
proof (induction t s start i spans rule: skip_run_spans.induct)
  case (1 t s start i spans)
  show ?case
  proof (cases "i < length s \<and> should_split_at t (s ! i)")
    case False
    then have "skip_run_spans t s start i spans = (i, spans)"
      by (subst skip_run_spans.simps) (simp only: if_False)
    with "1.prems" show ?thesis by simp
  next
    case True
    let ?sp = "if keep_punctuation t \<and> is_ascii_punct (s ! i) \<and>
              i > start + (if i - start > 0 then 1 else 0)
           then spans @ [(i, 1)] else spans"
    from True have a: "byte (s ! i) AND 0x80 = 0"
      using split_is_ascii[OF "1.prems"(1)] by blast
    have b1: "boundary s (i + 1)"
      using boundary_ascii_step[OF "1.prems"(2) _ a] True by simp
    have g: "list_all (good_span s) ?sp"
      using "1.prems"(2,3) b1 by (simp add: good_span_pair)
    have d: "dropped_delimiter t s i"
      using True a "1.prems"(2) by (simp add: dropped_delimiter_def)
    have c: "\<forall>k<i + 1. covered ?sp k \<or> dropped_delimiter t s k"
    proof (intro allI impI)
      fix k assume "k < i + 1"
      then consider "k < i" | "k = i" by linarith
      then show "covered ?sp k \<or> dropped_delimiter t s k"
      proof cases
        case 1
        with "1.prems"(4) show ?thesis by (auto intro: covered_append)
      next
        case 2
        with d show ?thesis by simp
      qed
    qed
    have "skip_run_spans t s start i spans = skip_run_spans t s start (i + 1) ?sp"
      using True by (subst skip_run_spans.simps) simp
    with "1.prems"(5) have r: "skip_run_spans t s start (i + 1) ?sp = (i', spans')" by simp
    show ?thesis
      by (rule "1.IH"[OF True "1.prems"(1) b1 g c r])
  qed
qed


lemma tokenize_loop_spans_inv:
  "\<forall>d\<in>delimiters t. byte d AND 0x80 = 0 \<Longrightarrow>
     boundary s start \<Longrightarrow> boundary s i \<Longrightarrow> start \<le> i \<Longrightarrow>
     list_all (good_span s) spans \<Longrightarrow>
     (\<forall>k < start. covered spans k \<or> dropped_delimiter t s k) \<Longrightarrow>
     tokenize_loop_spans t s start i spans = (start', spans') \<Longrightarrow>
     boundary s start' \<and> list_all (good_span s) spans' \<and>
     (\<forall>k < start'. covered spans' k \<or> dropped_delimiter t s k)"
proof (induction t s start i spans rule: tokenize_loop_spans.induct)
  case (1 t s start i spans)
  note asc = "1.prems"(1) and bs = "1.prems"(2) and bi = "1.prems"(3) and le = "1.prems"(4)
    and good = "1.prems"(5) and cov = "1.prems"(6) and res = "1.prems"(7)
  show ?case
  proof (cases "i < length s")
    case False
    then have "tokenize_loop_spans t s start i spans = (start, spans)"
      by (subst tokenize_loop_spans.simps) simp
    with res bs good cov show ?thesis by simp
  next
    case inb: True
    show ?thesis
    proof (cases "byte (s ! i) AND 0x80 \<noteq> 0")
      case True
      have "tokenize_loop_spans t s start i spans
          = tokenize_loop_spans t s start (i + utf8_char_length (s ! i)) spans"
        using inb True by (subst tokenize_loop_spans.simps) simp
      with res have r: "tokenize_loop_spans t s start (i + utf8_char_length (s ! i)) spans
          = (start', spans')" by simp
      have b: "boundary s (i + utf8_char_length (s ! i))"
        using bi inb by (rule boundary_step)
      have l: "start \<le> i + utf8_char_length (s ! i)" using le by simp
      show ?thesis
        by (rule "1.IH"(1)[OF inb True asc bs b l good cov r])
    next
      case ascii: False
      then have a: "byte (s ! i) AND 0x80 = 0" by simp
      have b1: "boundary s (i + 1)"
        by (rule boundary_ascii_step[OF bi inb a])
      show ?thesis
      proof (cases "should_split_at t (s ! i)")
        case False
        have "tokenize_loop_spans t s start i spans
            = tokenize_loop_spans t s start (i + 1) spans"
          using inb ascii False by (subst tokenize_loop_spans.simps) simp
        with res have r: "tokenize_loop_spans t s start (i + 1) spans = (start', spans')"
          by simp
        have l: "start \<le> i + 1" using le by simp
        show ?thesis
          by (rule "1.IH"(3)[OF inb ascii False asc bs b1 l good cov r])
      next
        case True
        define spans1 where "spans1 =
                  (if i > start then
                     (if substr s start (i - start) \<noteq> []
                      then spans @ [(start, i - start)]
                      else spans)
                   else spans)"
        define spans2 where "spans2 =
                  (if keep_punctuation t \<and> is_ascii_punct (s ! i)
                   then spans1 @ [(i, 1)]
                   else spans1)"
        obtain j spans3 where sr: "skip_run_spans t s start i spans2 = (j, spans3)"
          by (cases "skip_run_spans t s start i spans2")
        have s1: "spans1 = (if i > start then spans @ [(start, i - start)] else spans)"
          using inb by (simp add: spans1_def substr_nonempty)
        have g1: "list_all (good_span s) spans1"
          using good bs bi le by (simp add: s1 good_span_pair)
        have g2: "list_all (good_span s) spans2"
          using g1 bi b1 by (simp add: spans2_def good_span_pair)
        have c1: "\<forall>k<i. covered spans1 k \<or> dropped_delimiter t s k"
        proof (intro allI impI)
          fix k assume ki: "k < i"
          show "covered spans1 k \<or> dropped_delimiter t s k"
          proof (cases "k < start")
            case True
            with cov show ?thesis by (auto simp: s1 intro: covered_append)
          next
            case False
            with ki have "start < i" "start \<le> k" "k < start + (i - start)" by simp_all
            then show ?thesis by (simp add: s1 covered_last)
          qed
        qed
        have c2: "\<forall>k<i. covered spans2 k \<or> dropped_delimiter t s k"
          using c1 by (auto simp: spans2_def intro: covered_append)
        from skip_run_spans_inv[OF asc bi g2 c2 sr]
        have bj: "boundary s j" and g3: "list_all (good_span s) spans3"
          and c3: "\<forall>k<j. covered spans3 k \<or> dropped_delimiter t s k"
          by simp_all
        have "tokenize_loop_spans t s start i spans = tokenize_loop_spans t s j j spans3"
          using inb ascii True
          by (subst tokenize_loop_spans.simps)
             (simp only: Let_def spans1_def[symmetric] spans2_def[symmetric] sr
                if_True if_False prod.case simp_thms)
        with res have r: "tokenize_loop_spans t s j j spans3 = (start', spans')" by simp
        show ?thesis
          by (rule "1.IH"(2)[OF inb ascii True spans1_def spans2_def sr[symmetric]
                asc bj bj order_refl g3 c3 r])
      qed
    qed
  qed
qed

lemma tokenize_spans_aligned:
  assumes asc: "\<forall>d\<in>delimiters t. byte d AND 0x80 = 0"
  shows "list_all (good_span s) (tokenize_spans t s) \<and>
         (\<forall>k<length s. covered (tokenize_spans t s) k \<or> dropped_delimiter t s k)"
proof -
  obtain start spans where tl: "tokenize_loop_spans t s 0 0 [] = (start, spans)"
    by (cases "tokenize_loop_spans t s 0 0 []")
  have "boundary s start \<and> list_all (good_span s) spans \<and>
     (\<forall>k < start. covered spans k \<or> dropped_delimiter t s k)"
    by (rule tokenize_loop_spans_inv[OF asc boundary_zero boundary_zero order_refl _ _ tl])
       simp_all
  then have bs: "boundary s start" and g: "list_all (good_span s) spans"
    and c: "\<forall>k < start. covered spans k \<or> dropped_delimiter t s k" by simp_all
  show ?thesis
  proof (cases "start < length s")
    case True
    then have ts: "tokenize_spans t s = spans @ [(start, length s - start)]"
      by (simp add: tokenize_spans_def tl substr_from_nonempty)
    have "list_all (good_span s) (spans @ [(start, length s - start)])"
      using g bs True by (simp add: good_span_pair)
    moreover have "covered (spans @ [(start, length s - start)]) k \<or> dropped_delimiter t s k"
      if "k < length s" for k
    proof (cases "k < start")
      case True
      with c show ?thesis by (auto intro: covered_append)
    next
      case False
      with that show ?thesis by (simp add: covered_last)
    qed
    ultimately show ?thesis by (simp add: ts)
  next
    case False
    then have ts: "tokenize_spans t s = spans"
      by (simp add: tokenize_spans_def tl)
    from False c g show ?thesis by (simp add: ts)
  qed
qed

lemma boundary_not_inside:
  "boundary s b \<Longrightarrow> boundary s c \<Longrightarrow> b < c \<Longrightarrow> b < length s \<Longrightarrow>
     b + utf8_char_length (s ! b) \<le> c"
proof (induction c arbitrary: b rule: less_induct)
  case (less c)
  from less.prems(2) show ?case
  proof (cases rule: boundary.cases)
    case boundary_zero
    with less.prems(3) show ?thesis by simp
  next
    case (boundary_step b')
    have pos: "0 < utf8_char_length (s ! b')" by (rule utf8_char_length_pos)
    consider "b = b'" | "b < b'" | "b' < b" by linarith
    then show ?thesis
    proof cases
      case 1
      with boundary_step show ?thesis by simp
    next
      case 2
      have "b' < c" using boundary_step pos by simp
      from less.IH[OF this less.prems(1) boundary_step(2) 2 less.prems(4)]
      show ?thesis using boundary_step by simp
    next
      case 3
      from less.IH[OF less.prems(3) boundary_step(2) less.prems(1) 3 boundary_step(3)]
      have "b' + utf8_char_length (s ! b') \<le> b" .
      with boundary_step less.prems(3) show ?thesis by simp
    qed
  qed
qed

lemma normalize_loop_prefix:
  "k < length result \<Longrightarrow> normalize_loop token i result ! k = result ! k"
proof (induction token i result rule: normalize_loop.induct)
  case (1 token i result)
  show ?case
  proof (cases "i < length token")
    case False
    then show ?thesis by (subst normalize_loop.simps) simp
  next
    case inb: True
    show ?thesis
    proof (cases "byte (token ! i) AND 0x80 = 0")
      case True
      with inb "1.IH"(1) "1.prems" show ?thesis
        by (subst normalize_loop.simps) (simp add: nth_append)
    next
      case False
      with inb "1.IH"(2) "1.prems" show ?thesis
        by (subst normalize_loop.simps) (simp add: nth_append copy_char_eq)
    qed
  qed
qed

lemma normalize_loop_high:
  "length result = min i (length token) \<Longrightarrow> k < length token \<Longrightarrow> length result \<le> k \<Longrightarrow>
     byte (token ! k) AND 0x80 \<noteq> 0 \<Longrightarrow> normalize_loop token i result ! k = token ! k"
proof (induction token i result rule: normalize_loop.induct)
  case (1 token i result)
  show ?case
  proof (cases "i < length token")
    case False
    with "1.prems" show ?thesis by simp
  next
    case inb: True
    then have lr: "length result = i" using "1.prems"(1) by simp
    show ?thesis
    proof (cases "byte (token ! i) AND 0x80 = 0")
      case True
      then have "k \<noteq> i" using "1.prems"(4) by auto
      with "1.prems"(3) lr have k: "length (result @ [to_ascii_lower (token ! i)]) \<le> k" by simp
      have "normalize_loop token (i + 1) (result @ [to_ascii_lower (token ! i)]) ! k = token ! k"
        using inb lr by (intro "1.IH"(1)[OF inb True _ "1.prems"(2) k "1.prems"(4)]) simp
      with inb True show ?thesis by (subst normalize_loop.simps) simp
    next
      case False
      let ?len = "utf8_char_length (token ! i)"
      let ?res = "copy_char token i ?len 0 result"
      have res: "?res = result @ take ?len (drop i token)"
        by (simp add: copy_char_eq)
      have lres: "length ?res = min (i + ?len) (length token)"
        using inb lr by (auto simp: res min_def)
      have step: "normalize_loop token i result = normalize_loop token (i + ?len) ?res"
        using inb False by (subst normalize_loop.simps) simp
      show ?thesis
      proof (cases "k < length ?res")
        case True
        then have "normalize_loop token (i + ?len) ?res ! k = ?res ! k"
          by (rule normalize_loop_prefix)
        also have "\<dots> = token ! k"
          using True "1.prems"(3) lr inb unfolding res
          by (simp add: nth_append)
        finally show ?thesis by (simp only: step)
      next
        case ge: False
        then have k: "length ?res \<le> k" by simp
        have "normalize_loop token (i + ?len) ?res ! k = token ! k"
          by (rule "1.IH"(2)[OF inb False lres "1.prems"(2) k "1.prems"(4)])
        then show ?thesis by (simp only: step)
      qed
    qed
  qed
qed

lemma normalize_token_high:
  "k < length token \<Longrightarrow> byte (token ! k) AND 0x80 \<noteq> 0 \<Longrightarrow>
     normalize_token t token ! k = token ! k"
  by (simp add: normalize_token_def normalize_loop_high)

text \<open>
  Claim C9, as the code has it. For every text and every configuration whose delimiters
  are all ASCII bytes (the default ones are), \<open>tokenize\<close> never cuts inside a multi-byte
  character and never drops one of its bytes as a delimiter: the tokens are the
  normalized slices of \<open>tokenize_spans\<close>; every slice starts at a character boundary and
  ends at one or at the end of the text; every byte outside all slices is an ASCII
  splitting byte that is a character of its own; and no character boundary lies strictly
  inside a character. Normalization keeps the length of a token and every byte with the
  high bit set, whatever the configuration. With lowercase enabled the UTF-8 text
  \<open>caf\<close> followed by the two bytes C3 A9 is returned as one unchanged token.
\<close>

theorem tokenize_keeps_characters_whole:
  assumes "\<forall>d\<in>delimiters t. byte d AND 0x80 = 0"
  shows "tokenize t s = map (slice_token t s) (tokenize_spans t s) \<and>
         list_all (good_span s) (tokenize_spans t s) \<and>
         (\<forall>k<length s. covered (tokenize_spans t s) k \<or> dropped_delimiter t s k) \<and>
         (\<forall>b c. boundary s b \<and> boundary s c \<and> b < c \<and> b < length s \<longrightarrow>
            b + utf8_char_length (s ! b) \<le> c) \<and>
         length (normalize_token t token) = length token \<and>
         (\<forall>k<length token. byte (token ! k) AND 0x80 \<noteq> 0 \<longrightarrow>
            normalize_token t token ! k = token ! k) \<and>
         tokenize (set_lowercase True TextTokenizer)
             [CHR ''c'', CHR ''a'', CHR ''f'', CHR 0xC3, CHR 0xA9]
           = [[CHR ''c'', CHR ''a'', CHR ''f'', CHR 0xC3, CHR 0xA9]]"
proof -
  have cafe: "tokenize (set_lowercase True TextTokenizer)
             [CHR ''c'', CHR ''a'', CHR ''f'', CHR 0xC3, CHR 0xA9]
           = [[CHR ''c'', CHR ''a'', CHR ''f'', CHR 0xC3, CHR 0xA9]]"
    by code_simp
  from tokenize_spans_aligned[OF assms, of s]
  have al: "list_all (good_span s) (tokenize_spans t s)"
    and cv: "\<forall>k<length s. covered (tokenize_spans t s) k \<or> dropped_delimiter t s k"
    by simp_all
  have ni: "\<forall>b c. boundary s b \<and> boundary s c \<and> b < c \<and> b < length s \<longrightarrow>
            b + utf8_char_length (s ! b) \<le> c"
    using boundary_not_inside by blast
  have hb: "\<forall>k<length token. byte (token ! k) AND 0x80 \<noteq> 0 \<longrightarrow>
            normalize_token t token ! k = token ! k"
    using normalize_token_high by blast
  show ?thesis
    using tokenize_slices[of t s] al cv ni normalize_token_length[of t token] hb cafe
    by (intro conjI)
qed

theorem tokenize_keeps_characters_whole_witness:
  "\<not> (\<exists>d\<in>delimiters (set_lowercase True TextTokenizer). byte d AND 0x80 \<noteq> 0) \<and>
   tokenize (set_lowercase True TextTokenizer)
       [CHR ''C'', CHR ''a'', CHR ''f'', CHR 0xC3, CHR 0xA9, CHR '' '', CHR ''X'']
     = [[CHR ''c'', CHR ''a'', CHR ''f'', CHR 0xC3, CHR 0xA9], ''x''] \<and>
   tokenize_spans (set_lowercase True TextTokenizer)
       [CHR ''C'', CHR ''a'', CHR ''f'', CHR 0xC3, CHR 0xA9, CHR '' '', CHR ''X'']
     = [(0, 5), (6, 1)] \<and>
   list_all (good_span [CHR ''C'', CHR ''a'', CHR ''f'', CHR 0xC3, CHR 0xA9, CHR '' '', CHR ''X''])
     [(0, 5), (6, 1)]"
proof -
  have h: "\<forall>d\<in>delimiters (set_lowercase True TextTokenizer). byte d AND 0x80 = 0"
    by (simp add: set_lowercase_def TextTokenizer_def)
  have sp: "tokenize_spans (set_lowercase True TextTokenizer)
       [CHR ''C'', CHR ''a'', CHR ''f'', CHR 0xC3, CHR 0xA9, CHR '' '', CHR ''X'']
     = [(0, 5), (6, 1)]"
    by code_simp
  have tk: "tokenize (set_lowercase True TextTokenizer)
       [CHR ''C'', CHR ''a'', CHR ''f'', CHR 0xC3, CHR 0xA9, CHR '' '', CHR ''X'']
     = [[CHR ''c'', CHR ''a'', CHR ''f'', CHR 0xC3, CHR 0xA9], ''x'']"
    by code_simp
  from tokenize_keeps_characters_whole[OF h,
      of "[CHR ''C'', CHR ''a'', CHR ''f'', CHR 0xC3, CHR 0xA9, CHR '' '', CHR ''X'']"]
  have "list_all (good_span [CHR ''C'', CHR ''a'', CHR ''f'', CHR 0xC3, CHR 0xA9, CHR '' '', CHR ''X''])
     [(0, 5), (6, 1)]"
    unfolding sp by blast
  with h sp tk show ?thesis by blast
qed

text \<open>
  Claim C9 as it was stated, for every configuration, fails when a byte with the high
  bit set has been added to the delimiters: the outer loop steps over such a byte before
  the delimiter test, but the loop over a delimiter run tests every byte. After the
  ASCII delimiter the lead byte C3 of the two-byte character is consumed as a delimiter
  and the token is the lone continuation byte A9.
\<close>

theorem non_ascii_delimiter_splits_character:
  "tokenize (add_delimiter (CHR 0xC3) TextTokenizer) [CHR '' '', CHR 0xC3, CHR 0xA9]
     = [[CHR 0xA9]] \<and>
   utf8_char_length (CHR 0xC3) = 2"
  by code_simp

end
